theory Spec2Isabelle
  imports Main
begin

section \<open>Tic Tac Toe on a 5 x 5 board: the game engine and its two front ends\<close>

text \<open>
  The engine is \<^verbatim>\<open>tic_tac_toe.py\<close>, the web front end is \<^verbatim>\<open>app.py\<close>.
  Python values are modelled as follows: \<^verbatim>\<open>int\<close> is \<^typ>\<open>int\<close>; \<^verbatim>\<open>str\<close> is
  \<^typ>\<open>string\<close> (one \<^typ>\<open>char\<close> per code point below 256); a tuple or list of
  strings is a \<^typ>\<open>string list\<close>; \<^verbatim>\<open>Optional[str]\<close> is \<^typ>\<open>string option\<close>;
  an exception that leaves a function is the left summand of its result.
\<close>

subsection \<open>Exceptions and sequence indexing\<close>

datatype error = IndexError | ValueError | EOFError

text \<open>
  Subscripting a sequence of length \<open>n\<close> with \<open>i\<close>: a negative subscript counts from
  the end, and a position outside the sequence raises \<^verbatim>\<open>IndexError\<close>.
\<close>

definition subscript :: "nat \<Rightarrow> int \<Rightarrow> error + nat" where
  "subscript n i =
     (let j = (if i < 0 then i + int n else i)
      in if 0 \<le> j \<and> j < int n then Inr (nat j) else Inl IndexError)"

text \<open>\<^verbatim>\<open>xs[i]\<close>\<close>

definition getitem :: "'a list \<Rightarrow> int \<Rightarrow> error + 'a" where
  "getitem xs i = (case subscript (length xs) i of Inl e \<Rightarrow> Inl e | Inr k \<Rightarrow> Inr (xs ! k))"

text \<open>\<^verbatim>\<open>xs[i] = v\<close> on a list, returning the list as it is afterwards.\<close>

definition setitem :: "'a list \<Rightarrow> int \<Rightarrow> 'a \<Rightarrow> error + 'a list" where
  "setitem xs i v =
     (case subscript (length xs) i of Inl e \<Rightarrow> Inl e | Inr k \<Rightarrow> Inr (xs[k := v]))"

text \<open>\<^verbatim>\<open>range(n)\<close>: empty when \<open>n \<le> 0\<close>.\<close>

definition py_range :: "int \<Rightarrow> int list" where
  "py_range n = [0..n - 1]"

subsection \<open>Board constants and winning lines\<close>

definition BOARD_SIZE :: int where
  "BOARD_SIZE = 5"

definition TOTAL_CELLS :: int where
  "TOTAL_CELLS = BOARD_SIZE * BOARD_SIZE"

definition generate_winning_lines :: "int \<Rightarrow> int list list" where
  "generate_winning_lines size' =
     map (\<lambda>row. map (\<lambda>col. row * size' + col) (py_range size')) (py_range size')
     @ map (\<lambda>col. map (\<lambda>row. col + row * size') (py_range size')) (py_range size')
     @ [map (\<lambda>i. i * size' + i) (py_range size'),
        map (\<lambda>i. i * size' + (size' - 1 - i)) (py_range size')]"

definition WINNING_LINES :: "int list list" where
  "WINNING_LINES = generate_winning_lines BOARD_SIZE"

subsection \<open>Game state\<close>

record GameState =
  board :: "string list"
  active :: string

text \<open>
  \<^verbatim>\<open>all(cells[idx] == first for idx in line[1:])\<close>: the generator stops at the first
  cell that differs, and a subscript out of range raises before that.
\<close>

fun all_equal :: "string list \<Rightarrow> string \<Rightarrow> int list \<Rightarrow> error + bool" where
  "all_equal cells first [] = Inr True"
| "all_equal cells first (idx # idxs) =
     (case getitem cells idx of
        Inl e \<Rightarrow> Inl e
      | Inr c \<Rightarrow> if c = first then all_equal cells first idxs else Inr False)"

text \<open>The loop of \<^verbatim>\<open>check_winner\<close> over the lines still to be looked at.\<close>

fun check_lines :: "string list \<Rightarrow> int list list \<Rightarrow> error + string option" where
  "check_lines cells [] = Inr None"
| "check_lines cells (line # lines) =
     (case line of
        [] \<Rightarrow> Inl IndexError
      | i0 # rest \<Rightarrow>
          (case getitem cells i0 of
             Inl e \<Rightarrow> Inl e
           | Inr first \<Rightarrow>
               if first \<noteq> '' '' then
                 (case all_equal cells first rest of
                    Inl e \<Rightarrow> Inl e
                  | Inr same \<Rightarrow> if same then Inr (Some first) else check_lines cells lines)
               else check_lines cells lines))"

definition check_winner :: "string list \<Rightarrow> error + string option" where
  "check_winner board_arg = check_lines board_arg WINNING_LINES"

definition is_draw :: "string list \<Rightarrow> bool" where
  "is_draw board_arg = list_all (\<lambda>cell. cell \<noteq> '' '') board_arg"

definition make_move :: "GameState \<Rightarrow> int \<Rightarrow> error + GameState" where
  "make_move state slot =
     (case setitem (board state) slot (active state) of
        Inl e \<Rightarrow> Inl e
      | Inr cells \<Rightarrow>
          Inr \<lparr>board = cells,
               active = (if active state = ''X'' then ''O'' else ''X'')\<rparr>)"

text \<open>
  \<^verbatim>\<open>new_game(starting_player="X")\<close>: the argument is optional, \<open>None\<close> is the call
  without it.
\<close>

definition new_game :: "string option \<Rightarrow> GameState" where
  "new_game starting_player =
     \<lparr>board = replicate (nat TOTAL_CELLS) '' '',
      active = (case starting_player of None \<Rightarrow> ''X'' | Some p \<Rightarrow> p)\<rparr>"

text \<open>The truth value of an \<^verbatim>\<open>Optional[str]\<close>: \<^verbatim>\<open>None\<close> and the empty string are false.\<close>

definition truthy :: "string option \<Rightarrow> bool" where
  "truthy v = (case v of None \<Rightarrow> False | Some s \<Rightarrow> s \<noteq> [])"

definition evaluate_state :: "GameState \<Rightarrow> error + string option" where
  "evaluate_state state =
     (case check_winner (board state) of
        Inl e \<Rightarrow> Inl e
      | Inr winner \<Rightarrow>
          if truthy winner then Inr winner
          else if is_draw (board state) then Inr (Some ''draw'')
          else Inr None)"

text \<open>
  The states play can reach: a fresh game started by \<open>X\<close> or by \<open>O\<close>, and every state
  \<^verbatim>\<open>make_move\<close> returns from a reachable one, whatever the slot.
\<close>

inductive reachable :: "GameState \<Rightarrow> bool" where
  start: "p = ''X'' \<or> p = ''O'' \<Longrightarrow> reachable (new_game (Some p))"
| step: "reachable s \<Longrightarrow> make_move s slot = Inr s' \<Longrightarrow> reachable s'"

subsection \<open>The terminal front end: \<^verbatim>\<open>get_move\<close>\<close>

text \<open>
  \<^verbatim>\<open>str.strip()\<close> removes the leading and trailing characters for which
  \<^verbatim>\<open>str.isspace()\<close> holds; below code point 256 these are the following.
\<close>

definition isspace :: "char \<Rightarrow> bool" where
  "isspace c = (of_char c \<in> {9, 10, 11, 12, 13, 28, 29, 30, 31, 32, 133, 160 :: nat})"

definition strip :: "string \<Rightarrow> string" where
  "strip s = rev (dropWhile isspace (rev (dropWhile isspace s)))"








text \<open>
  The builtin \<^verbatim>\<open>int\<close> on a string, in base ten and for code points below 256:
  surrounding whitespace is dropped, one sign may come first, and the digits \<open>0\<close> to
  \<open>9\<close> follow, where single underscores may stand between digits; any other text raises
  \<^verbatim>\<open>ValueError\<close>. The interpreter's limit on the number of digits is left out. The
  general statements take \<open>to_int\<close> as a parameter; this reading is used where a
  scenario needs a concrete one.
\<close>

fun split_underscore :: "string \<Rightarrow> string list" where
  "split_underscore [] = [[]]"
| "split_underscore (c # cs) =
     (if c = CHR ''_'' then [] # split_underscore cs
      else (case split_underscore cs of
              g # gs \<Rightarrow> (c # g) # gs
            | [] \<Rightarrow> [[c]]))"

definition digits_value :: "string \<Rightarrow> error + int" where
  "digits_value s =
     (let groups = split_underscore s in
      if list_all (\<lambda>g. g \<noteq> [] \<and> list_all (\<lambda>c. of_char c \<in> {48..57 :: nat}) g) groups
      then Inr (foldl (\<lambda>acc c. 10 * acc + (of_char c - 48)) 0 (concat groups))
      else Inl ValueError)"

definition plain_int :: "string \<Rightarrow> error + int" where
  "plain_int s =
     (case strip s of
        [] \<Rightarrow> Inl ValueError
      | c # r \<Rightarrow>
          if c = CHR ''-'' then (case digits_value r of Inl e \<Rightarrow> Inl e | Inr v \<Rightarrow> Inr (- v))
          else if c = CHR ''+'' then digits_value r
          else digits_value (c # r))"

subsection \<open>The web front end: session state and the \<^verbatim>\<open>/move\<close> handler\<close>

text \<open>
  The visitor's session holds the keys \<^verbatim>\<open>board\<close> and \<^verbatim>\<open>active\<close>, each of them
  present or absent, and the messages queued by \<^verbatim>\<open>flash\<close>.
\<close>

record session =
  session_board :: "string list option"
  session_active :: "string option"
  flashes :: "string list"

definition set_state :: "GameState \<Rightarrow> session \<Rightarrow> session" where
  "set_state state sess =
     sess\<lparr>session_board := Some (board state), session_active := Some (active state)\<rparr>"

text \<open>\<^verbatim>\<open>_get_state\<close>: the session as it is afterwards, and the state returned.\<close>

definition get_state :: "session \<Rightarrow> session \<times> GameState" where
  "get_state sess =
     (let active_arg = (case session_active sess of None \<Rightarrow> ''X'' | Some a \<Rightarrow> a) in
      case session_board sess of
        None \<Rightarrow> (let state = new_game None in (set_state state sess, state))
      | Some cells \<Rightarrow>
          if cells = [] \<or> int (length cells) \<noteq> TOTAL_CELLS
          then (let state = new_game None in (set_state state sess, state))
          else (sess, \<lparr>board = cells, active = active_arg\<rparr>))"

definition flash :: "string \<Rightarrow> session \<Rightarrow> session" where
  "flash message sess = sess\<lparr>flashes := flashes sess @ [message]\<rparr>"

text \<open>
  The handler of \<^verbatim>\<open>POST /move\<close>. The form field \<^verbatim>\<open>position\<close> is present or absent;
  \<open>to_int\<close> is the builtin \<^verbatim>\<open>int\<close>, whose \<^verbatim>\<open>ValueError\<close> the handler catches. Every
  path answers with the same redirect, so the result is the session afterwards, or the
  exception that leaves the handler.
\<close>

definition move ::
  "(string \<Rightarrow> error + int) \<Rightarrow> session \<Rightarrow> string option \<Rightarrow> error + session" where
  "move to_int sess form_position =
     (case get_state sess of (sess1, state) \<Rightarrow>
      (case evaluate_state state of
         Inl e \<Rightarrow> Inl e
       | Inr outcome \<Rightarrow>
           if truthy outcome then
             Inr (flash ''The game is finished. Start a new game to continue.'' sess1)
           else
             (let raw_position = (case form_position of None \<Rightarrow> [] | Some r \<Rightarrow> r) in
              case to_int raw_position of
                Inl e \<Rightarrow>
                  if e = ValueError then Inr (flash ''Invalid move selection.'' sess1)
                  else Inl e
              | Inr position \<Rightarrow>
                  if position < 0 \<or> position \<ge> TOTAL_CELLS then
                    Inr (flash ''That position is outside the board.'' sess1)
                  else
                    (case getitem (board state) position of
                       Inl e \<Rightarrow> Inl e
                     | Inr c \<Rightarrow>
                         if c \<noteq> '' '' then
                           Inr (flash ''That square is already taken.'' sess1)
                         else
                           (case make_move state position of
                              Inl e \<Rightarrow> Inl e
                            | Inr updated_state \<Rightarrow> Inr (set_state updated_state sess1))))))"

subsection \<open>\<^verbatim>\<open>make_move\<close> over an object store\<close>

text \<open>
  To say that \<^verbatim>\<open>make_move\<close> does not write to the objects it is given, the same
  function is modelled once more over a store of objects. An address is a position in
  the store, and a new object goes at the end. A \<^verbatim>\<open>GameState\<close> object holds the
  address of its board and its active mark.
\<close>

datatype obj = TupleObj "string list" | ListObj "string list" | StateObj nat string

type_synonym store = "obj list"

datatype fault = AttributeError | TypeError | Raised error

definition alloc :: "store \<Rightarrow> obj \<Rightarrow> store \<times> nat" where
  "alloc h v = (h @ [v], length h)"

definition deref :: "store \<Rightarrow> nat \<Rightarrow> obj option" where
  "deref h a = (if a < length h then Some (h ! a) else None)"

text \<open>The items of a tuple or a list, as \<^verbatim>\<open>list(...)\<close> iterates them.\<close>

fun items :: "obj option \<Rightarrow> string list option" where
  "items (Some (TupleObj cells)) = Some cells"
| "items (Some (ListObj cells)) = Some cells"
| "items _ = None"

text \<open>The \<^verbatim>\<open>GameState\<close> value an address denotes in a store.\<close>

definition state_at :: "store \<Rightarrow> nat \<Rightarrow> GameState option" where
  "state_at h a =
     (case deref h a of
        Some (StateObj b act) \<Rightarrow>
          (case items (deref h b) of
             Some cells \<Rightarrow> Some \<lparr>board = cells, active = act\<rparr>
           | None \<Rightarrow> None)
      | _ \<Rightarrow> None)"

text \<open>
  \<^verbatim>\<open>board = list(state.board)\<close> allocates a list, \<^verbatim>\<open>board[slot] = state.active\<close>
  writes into that list in place, \<^verbatim>\<open>tuple(board)\<close> and \<^verbatim>\<open>GameState(...)\<close> allocate
  the result.
\<close>

definition make_move_store :: "store \<Rightarrow> nat \<Rightarrow> int \<Rightarrow> store \<times> (fault + nat)" where
  "make_move_store h state slot =
     (case deref h state of
        Some (StateObj b act) \<Rightarrow>
          (case items (deref h b) of
             None \<Rightarrow> (h, Inl TypeError)
           | Some cells \<Rightarrow>
               (case alloc h (ListObj cells) of (h1, board_arg) \<Rightarrow>
                  (case setitem cells slot act of
                     Inl e \<Rightarrow> (h1, Inl (Raised e))
                   | Inr cells' \<Rightarrow>
                       (let h2 = h1[board_arg := ListObj cells'];
                            next_player = (if act = ''X'' then ''O'' else ''X'')
                        in case alloc h2 (TupleObj cells') of (h3, t) \<Rightarrow>
                             (case alloc h3 (StateObj t next_player) of (h4, r) \<Rightarrow>
                                (h4, Inr r))))))
      | _ \<Rightarrow> (h, Inl AttributeError))"

subsection \<open>What the specification calls a won line\<close>

text \<open>
  In the specification's words: all cells at the line's indices hold the same mark \<open>m\<close>,
  and \<open>m\<close> is not the empty cell.
\<close>

definition line_won :: "string list \<Rightarrow> int list \<Rightarrow> string \<Rightarrow> bool" where
  "line_won cells line m = (m \<noteq> '' '' \<and> (\<forall>i\<in>set line. cells ! nat i = m))"

text \<open>
  In the specification's words: the cell of index \<open>i\<close> is in row \<open>i div N\<close> and column
  \<open>i mod N\<close>; the winning lines are all \<open>N\<close> rows, all \<open>N\<close> columns and the two full
  diagonals, in this order. A line lists its cells by increasing index.
\<close>

definition cells_where :: "int \<Rightarrow> (int \<Rightarrow> bool) \<Rightarrow> int list" where
  "cells_where n P = filter P [0..n * n - 1]"

definition spec_winning_lines :: "int \<Rightarrow> int list list" where
  "spec_winning_lines n =
     map (\<lambda>r. cells_where n (\<lambda>i. i div n = r)) [0..n - 1]
     @ map (\<lambda>c. cells_where n (\<lambda>i. i mod n = c)) [0..n - 1]
     @ [cells_where n (\<lambda>i. i div n = i mod n),
        cells_where n (\<lambda>i. i div n + i mod n = n - 1)]"

section \<open>Properties\<close>

subsection \<open>Constants and indexing\<close>


lemma TOTAL_CELLS_eq: "TOTAL_CELLS = 25"
  by (simp add: TOTAL_CELLS_def BOARD_SIZE_def)

lemma WINNING_LINES_eq:
  "WINNING_LINES =
     [[0, 1, 2, 3, 4], [5, 6, 7, 8, 9], [10, 11, 12, 13, 14], [15, 16, 17, 18, 19],
      [20, 21, 22, 23, 24],
      [0, 5, 10, 15, 20], [1, 6, 11, 16, 21], [2, 7, 12, 17, 22], [3, 8, 13, 18, 23],
      [4, 9, 14, 19, 24],
      [0, 6, 12, 18, 24], [4, 8, 12, 16, 20]]"
  by code_simp

lemma WINNING_LINES_inside:
  "\<forall>line\<in>set WINNING_LINES. line \<noteq> [] \<and> (\<forall>i\<in>set line. 0 \<le> i \<and> i < 25)"
  by (simp add: WINNING_LINES_eq)

lemma subscript_inside: "0 \<le> i \<Longrightarrow> i < int n \<Longrightarrow> subscript n i = Inr (nat i)"
  by (simp add: subscript_def)

lemma getitem_inside: "0 \<le> i \<Longrightarrow> i < int (length xs) \<Longrightarrow> getitem xs i = Inr (xs ! nat i)"
  by (simp add: getitem_def subscript_inside)

lemma setitem_inside:
  "0 \<le> i \<Longrightarrow> i < int (length xs) \<Longrightarrow> setitem xs i v = Inr (xs[nat i := v])"
  by (simp add: setitem_def subscript_inside)

lemma setitem_cases:
  "setitem xs i v =
     (if - int (length xs) \<le> i \<and> i < int (length xs)
      then Inr (xs[nat (if i < 0 then int (length xs) + i else i) := v])
      else Inl IndexError)"
  by (auto simp: setitem_def subscript_def Let_def add.commute)

subsection \<open>The winning-line generator\<close>

lemma length_py_range: "length (py_range n) = nat n"
  by (simp add: py_range_def)

lemma set_py_range: "set (py_range n) = {i. 0 \<le> i \<and> i < n}"
  by (auto simp: py_range_def)

lemma nth_py_range: "k < nat n \<Longrightarrow> py_range n ! k = int k"
  by (simp add: py_range_def)

lemma distinct_py_range: "distinct (py_range n)"
  by (simp add: py_range_def)

lemma cell_bound: "0 \<le> r \<Longrightarrow> r < n \<Longrightarrow> 0 \<le> c \<Longrightarrow> c < n \<Longrightarrow> 0 \<le> r * n + c \<and> r * n + c < n * (n::int)"
proof -
  assume a: "0 \<le> r" "r < n" "0 \<le> c" "c < n"
  then have "r + 1 \<le> n" by simp
  then have "(r + 1) * n \<le> n * n" using a by (intro mult_right_mono) auto
  then have "r * n + n \<le> n * n" by (simp add: algebra_simps)
  with a show ?thesis by auto
qed

lemma inj_row: "0 < n \<Longrightarrow> inj_on (\<lambda>col. r * n + col) (S::int set)"
  by (auto simp: inj_on_def)

lemma inj_col: "0 < n \<Longrightarrow> inj_on (\<lambda>row. c + row * n) (S::int set)"
  by (auto simp: inj_on_def)

lemma inj_diag: "0 < n \<Longrightarrow> inj_on (\<lambda>i. i * n + i) (S::int set)"
proof (rule inj_onI)
  fix x y :: int assume n: "0 < n" and e: "x * n + x = y * n + y"
  then have "(x - y) * (n + 1) = 0" by (simp add: algebra_simps)
  with n show "x = y" by simp
qed

lemma inj_anti: "0 < n \<Longrightarrow> inj_on (\<lambda>i. i * n + (n - 1 - i)) {i. 0 \<le> i \<and> i < (n::int)}"
proof (rule inj_onI)
  fix x y :: int assume n: "0 < n" and e: "x * n + (n - 1 - x) = y * n + (n - 1 - y)"
    and x: "x \<in> {i. 0 \<le> i \<and> i < n}" and y: "y \<in> {i. 0 \<le> i \<and> i < n}"
  from e have "(x - y) * (n - 1) = 0" by (simp add: algebra_simps)
  then have "x = y \<or> n = 1" by auto
  with x y show "x = y" by auto
qed

lemma gwl_row:
  "0 \<le> r \<Longrightarrow> r < n \<Longrightarrow>
   generate_winning_lines n ! nat r = map (\<lambda>col. r * n + col) (py_range n)"
  by (simp add: generate_winning_lines_def nth_append length_py_range nth_py_range)

lemma gwl_col:
  "0 \<le> c \<Longrightarrow> c < n \<Longrightarrow>
   generate_winning_lines n ! nat (n + c) = map (\<lambda>row. c + row * n) (py_range n)"
proof -
  assume a: "0 \<le> c" "c < n"
  then have "nat (n + c) - nat n = nat c" "\<not> nat (n + c) < nat n" "nat c < nat n" by auto
  then show ?thesis
    by (simp add: generate_winning_lines_def nth_append length_py_range nth_py_range a)
qed

lemma gwl_diag:
  "0 \<le> n \<Longrightarrow> generate_winning_lines n ! nat (2 * n) = map (\<lambda>i. i * n + i) (py_range n)"
proof -
  assume a: "0 \<le> n"
  then have "nat (2 * n) - nat n = nat n" "\<not> nat (2 * n) < nat n" by auto
  then show ?thesis
    using a by (simp add: generate_winning_lines_def nth_append length_py_range)
qed

lemma gwl_anti:
  "0 \<le> n \<Longrightarrow>
   generate_winning_lines n ! nat (2 * n + 1) = map (\<lambda>i. i * n + (n - 1 - i)) (py_range n)"
proof -
  assume a: "0 \<le> n"
  then have "nat (2 * n + 1) - nat n = Suc (nat n)" "\<not> nat (2 * n + 1) < nat n" by auto
  then show ?thesis
    using a by (simp add: generate_winning_lines_def nth_append length_py_range)
qed

lemma gwl_length: "0 \<le> n \<Longrightarrow> length (generate_winning_lines n) = nat (2 * n + 2)"
  by (simp add: generate_winning_lines_def length_py_range) 

lemma gwl_lines:
  assumes "1 \<le> n" and "line \<in> set (generate_winning_lines n)"
  shows "length line = nat n \<and> distinct line \<and> (\<forall>i\<in>set line. 0 \<le> i \<and> i < n * n)"
proof -
  have n: "0 < n" using assms(1) by simp
  have anti: "0 \<le> i * n + (n - 1 - i) \<and> i * n + (n - 1 - i) < n * n" if "0 \<le> i" "i < n" for i
    using cell_bound [of i n "n - 1 - i"] that by simp
  have diag: "0 \<le> i * n + i \<and> i * n + i < n * n" if "0 \<le> i" "i < n" for i
    using cell_bound [of i n i] that by simp
  from assms(2) consider
      r where "0 \<le> r" "r < n" "line = map (\<lambda>col. r * n + col) (py_range n)"
    | c where "0 \<le> c" "c < n" "line = map (\<lambda>row. c + row * n) (py_range n)"
    | "line = map (\<lambda>i. i * n + i) (py_range n)"
    | "line = map (\<lambda>i. i * n + (n - 1 - i)) (py_range n)"
    by (auto simp: generate_winning_lines_def set_py_range)
  then show ?thesis
  proof cases
    case 1
    then show ?thesis
      using cell_bound [of r n] inj_row [OF n]
      by (auto simp: length_py_range distinct_map distinct_py_range set_py_range)
  next
    case 2
    then show ?thesis
      using cell_bound [of _ n c] inj_col [OF n]
      by (auto simp: length_py_range distinct_map distinct_py_range set_py_range add.commute)
  next
    case 3
    then show ?thesis
      using diag inj_diag [OF n]
      by (auto simp: length_py_range distinct_map distinct_py_range set_py_range)
  next
    case 4
    then show ?thesis
      using anti inj_anti [OF n]
      by (auto simp: length_py_range distinct_map distinct_py_range set_py_range)
  qed
qed

text \<open>
  C2. For every \<open>n \<ge> 1\<close>, \<^verbatim>\<open>generate_winning_lines(n)\<close> returns \<open>2n + 2\<close> lines, each
  of \<open>n\<close> distinct indices in \<open>[0, n\<^sup>2)\<close>, in a fixed order. With the cell of index \<open>i\<close>
  in row \<open>i div n\<close> and column \<open>i mod n\<close>: line \<open>r\<close> (for \<open>r < n\<close>) is row \<open>r\<close>, its
  \<open>c\<close>-th entry being the cell in column \<open>c\<close>; line \<open>n + c\<close> is column \<open>c\<close>, its \<open>r\<close>-th
  entry being the cell in row \<open>r\<close>; line \<open>2n\<close> is the main diagonal and line \<open>2n + 1\<close> the
  other diagonal. For \<open>n = 1\<close> the four lines all hold index 0 only.
\<close>

theorem generate_winning_lines_shape:
  assumes "1 \<le> n"
  shows "length (generate_winning_lines n) = nat (2 * n + 2)
    \<and> (\<forall>line\<in>set (generate_winning_lines n).
          length line = nat n \<and> distinct line \<and> (\<forall>i\<in>set line. 0 \<le> i \<and> i < n * n))
    \<and> (\<forall>r c. 0 \<le> r \<and> r < n \<and> 0 \<le> c \<and> c < n \<longrightarrow>
          (generate_winning_lines n ! nat r ! nat c) div n = r
        \<and> (generate_winning_lines n ! nat r ! nat c) mod n = c
        \<and> (generate_winning_lines n ! nat (n + c) ! nat r) div n = r
        \<and> (generate_winning_lines n ! nat (n + c) ! nat r) mod n = c)
    \<and> (\<forall>k. 0 \<le> k \<and> k < n \<longrightarrow>
          (generate_winning_lines n ! nat (2 * n) ! nat k) div n = k
        \<and> (generate_winning_lines n ! nat (2 * n) ! nat k) mod n = k
        \<and> (generate_winning_lines n ! nat (2 * n + 1) ! nat k) div n = k
        \<and> (generate_winning_lines n ! nat (2 * n + 1) ! nat k) mod n = n - 1 - k)
    \<and> generate_winning_lines 1 = [[0], [0], [0], [0]]"
proof -
  have n0: "0 \<le> n" using assms by simp
  have rc: "(generate_winning_lines n ! nat r ! nat c) div n = r
        \<and> (generate_winning_lines n ! nat r ! nat c) mod n = c
        \<and> (generate_winning_lines n ! nat (n + c) ! nat r) div n = r
        \<and> (generate_winning_lines n ! nat (n + c) ! nat r) mod n = c"
    if "0 \<le> r \<and> r < n \<and> 0 \<le> c \<and> c < n" for r c
    using that by (simp add: gwl_row gwl_col length_py_range nth_py_range)
  have d: "(generate_winning_lines n ! nat (2 * n) ! nat k) div n = k
        \<and> (generate_winning_lines n ! nat (2 * n) ! nat k) mod n = k
        \<and> (generate_winning_lines n ! nat (2 * n + 1) ! nat k) div n = k
        \<and> (generate_winning_lines n ! nat (2 * n + 1) ! nat k) mod n = n - 1 - k"
    if "0 \<le> k \<and> k < n" for k
    using that n0 by (simp add: gwl_diag gwl_anti length_py_range nth_py_range)
  have one: "generate_winning_lines 1 = [[0], [0], [0], [0]]"
    by (simp add: generate_winning_lines_def py_range_def)
  show ?thesis
    using gwl_length [OF n0] gwl_lines [OF assms] rc d one by blast
qed

theorem generate_winning_lines_shape_witness:
  "(1::int) \<le> 5
   \<and> length (generate_winning_lines 5) = 12
   \<and> (generate_winning_lines 5 ! 7 ! 3) div 5 = 3
   \<and> (generate_winning_lines 5 ! 7 ! 3) mod 5 = 2
   \<and> (generate_winning_lines 5 ! 11 ! 1) div 5 = 1
   \<and> (generate_winning_lines 5 ! 11 ! 1) mod 5 = 3"
proof -
  have h: "(1::int) \<le> 5" by simp
  note shape = generate_winning_lines_shape [OF h]
  from shape have "length (generate_winning_lines 5) = nat (2 * 5 + 2)" by blast
  then have len: "length (generate_winning_lines 5) = 12" by simp
  from shape have "(0::int) \<le> 3 \<and> (3::int) < 5 \<and> (0::int) \<le> 2 \<and> (2::int) < 5 \<longrightarrow>
      (generate_winning_lines 5 ! nat (5 + 2) ! nat 3) div 5 = 3
    \<and> (generate_winning_lines 5 ! nat (5 + 2) ! nat 3) mod 5 = 2" by blast
  then have col: "(generate_winning_lines 5 ! 7 ! 3) div 5 = 3
    \<and> (generate_winning_lines 5 ! 7 ! 3) mod 5 = 2" by simp
  from shape have "(0::int) \<le> 1 \<and> (1::int) < 5 \<longrightarrow>
      (generate_winning_lines 5 ! nat (2 * 5 + 1) ! nat 1) div 5 = 1
    \<and> (generate_winning_lines 5 ! nat (2 * 5 + 1) ! nat 1) mod 5 = 5 - 1 - 1" by blast
  then have anti: "(generate_winning_lines 5 ! 11 ! 1) div 5 = 1
    \<and> (generate_winning_lines 5 ! 11 ! 1) mod 5 = 3" by simp
  show ?thesis using h len col anti by blast
qed

subsection \<open>The outcome evaluator\<close>

lemma all_equal_inside:
  "\<forall>i\<in>set idxs. 0 \<le> i \<and> i < int (length cells) \<Longrightarrow>
   all_equal cells first idxs = Inr (\<forall>i\<in>set idxs. cells ! nat i = first)"
  by (induction idxs) (auto simp: getitem_inside)

lemma check_lines_find:
  assumes "\<forall>line\<in>set lines. line \<noteq> [] \<and> (\<forall>i\<in>set line. 0 \<le> i \<and> i < int (length cells))"
  shows "check_lines cells lines =
    Inr (map_option (\<lambda>line. cells ! nat (hd line)) (find (\<lambda>line. \<exists>m. line_won cells line m) lines))"
  using assms
proof (induction lines)
  case Nil
  then show ?case by simp
next
  case (Cons line lines)
  then obtain i0 rest where l: "line = i0 # rest" by (cases line) auto
  from Cons.prems l have i0: "0 \<le> i0" "i0 < int (length cells)"
    and rest: "\<forall>i\<in>set rest. 0 \<le> i \<and> i < int (length cells)" by auto
  have won: "(\<exists>m. line_won cells line m) =
      (cells ! nat i0 \<noteq> '' '' \<and> (\<forall>i\<in>set rest. cells ! nat i = cells ! nat i0))"
    by (auto simp: line_won_def l)
  from Cons have IH: "check_lines cells lines =
    Inr (map_option (\<lambda>line. cells ! nat (hd line)) (find (\<lambda>line. \<exists>m. line_won cells line m) lines))"
    by simp
  show ?case
    unfolding find.simps won
    by (simp add: l getitem_inside [OF i0] all_equal_inside [OF rest] IH)
qed

lemma check_winner_find:
  assumes "int (length cells) = TOTAL_CELLS"
  shows "check_winner cells =
    Inr (map_option (\<lambda>line. cells ! nat (hd line)) (find (\<lambda>line. \<exists>m. line_won cells line m) WINNING_LINES))"
  unfolding check_winner_def
  using assms WINNING_LINES_inside by (intro check_lines_find) (simp add: TOTAL_CELLS_eq)

lemma find_first:
  "(find P xs = Some x) = (\<exists>k<length xs. xs ! k = x \<and> P x \<and> (\<forall>j<k. \<not> P (xs ! j)))"
  by (auto simp: find_Some_iff)

lemma evaluate_state_table:
  assumes "int (length (board s)) = TOTAL_CELLS"
    and "set (board s) \<subseteq> {'' '', ''X'', ''O''}"
  shows "((evaluate_state s = Inr (Some m) \<and> m \<noteq> ''draw'') =
           (\<exists>k<length WINNING_LINES. line_won (board s) (WINNING_LINES ! k) m \<and>
              (\<forall>j<k. \<forall>m'. \<not> line_won (board s) (WINNING_LINES ! j) m')))
       \<and> ((\<exists>w. evaluate_state s = Inr (Some w) \<and> w \<noteq> ''draw'') =
           (\<exists>line\<in>set WINNING_LINES. \<exists>w. line_won (board s) line w))
       \<and> ((evaluate_state s = Inr (Some ''draw'')) =
           ((\<forall>line\<in>set WINNING_LINES. \<forall>w. \<not> line_won (board s) line w) \<and>
            (\<forall>cell\<in>set (board s). cell \<noteq> '' '')))
       \<and> ((evaluate_state s = Inr None) =
           ((\<forall>line\<in>set WINNING_LINES. \<forall>w. \<not> line_won (board s) line w) \<and>
            (\<exists>cell\<in>set (board s). cell = '' '')))"
proof -
  let ?P = "\<lambda>line. \<exists>w. line_won (board s) line w"
  let ?f = "find ?P WINNING_LINES"
  have cw: "check_winner (board s) = Inr (map_option (\<lambda>line. board s ! nat (hd line)) ?f)"
    by (rule check_winner_find [OF assms(1)])
  have len: "length (board s) = 25"
    using assms(1) by (simp add: TOTAL_CELLS_eq)
  have mark: "w = ''X'' \<or> w = ''O''" if "line \<in> set WINNING_LINES" "line_won (board s) line w" for line w
  proof -
    from that(1) WINNING_LINES_inside have ne: "line \<noteq> []" and "\<forall>i\<in>set line. 0 \<le> i \<and> i < 25" by auto
    then have "hd line \<in> set line" "0 \<le> hd line \<and> hd line < 25" by (simp_all add: hd_in_set)
    then have "hd line \<in> set line" "nat (hd line) < length (board s)" using len by auto
    then have "board s ! nat (hd line) = w" "board s ! nat (hd line) \<in> set (board s)"
      using that(2) by (auto simp: line_won_def)
    with assms(2) that(2) show ?thesis by (auto simp: line_won_def)
  qed
  have hdm: "board s ! nat (hd line) = w" if "line \<in> set WINNING_LINES" "line_won (board s) line w" for line w
  proof -
    from that(1) WINNING_LINES_inside have "line \<noteq> []" by auto
    then have "hd line \<in> set line" by simp
    with that(2) show ?thesis by (auto simp: line_won_def)
  qed
  show ?thesis
  proof (cases ?f)
    case None
    then have no: "\<forall>line\<in>set WINNING_LINES. \<forall>w. \<not> line_won (board s) line w"
      by (auto simp: find_None_iff)
    have ev: "evaluate_state s = (if is_draw (board s) then Inr (Some ''draw'') else Inr None)"
      by (simp add: evaluate_state_def cw None truthy_def)
    have nok: "\<not> (\<exists>k<length WINNING_LINES. line_won (board s) (WINNING_LINES ! k) m \<and>
              (\<forall>j<k. \<forall>m'. \<not> line_won (board s) (WINNING_LINES ! j) m'))"
      using no by auto
    show ?thesis
      using no nok by (auto simp: ev is_draw_def list_all_iff)
  next
    case (Some line)
    then obtain k where k: "k < length WINNING_LINES" "WINNING_LINES ! k = line" "?P line"
      "\<forall>j<k. \<not> ?P (WINNING_LINES ! j)"
      by (auto simp: find_first)
    then obtain w where w: "line_won (board s) line w" by auto
    have lin: "line \<in> set WINNING_LINES" using k by auto
    have wm: "w = ''X'' \<or> w = ''O''" by (rule mark [OF lin w])
    have ev: "evaluate_state s = Inr (Some w)"
      using wm by (auto simp: evaluate_state_def cw Some truthy_def hdm [OF lin w])
    have uniq: "w' = w" if "line_won (board s) line w'" for w'
      using hdm [OF lin that] hdm [OF lin w] by simp
    have first: "(\<exists>k<length WINNING_LINES. line_won (board s) (WINNING_LINES ! k) m \<and>
              (\<forall>j<k. \<forall>m'. \<not> line_won (board s) (WINNING_LINES ! j) m')) = (m = w)"
    proof
      assume "\<exists>k<length WINNING_LINES. line_won (board s) (WINNING_LINES ! k) m \<and>
              (\<forall>j<k. \<forall>m'. \<not> line_won (board s) (WINNING_LINES ! j) m')"
      then obtain k' where k': "k' < length WINNING_LINES" "line_won (board s) (WINNING_LINES ! k') m"
        "\<forall>j<k'. \<forall>m'. \<not> line_won (board s) (WINNING_LINES ! j) m'" by auto
      have "k' = k"
      proof (rule ccontr)
        assume "k' \<noteq> k"
        then consider "k' < k" | "k < k'" by linarith
        then show False
        proof cases
          case 1 with k(4) k'(2) show False by auto
        next
          case 2 with k'(3) k(2) w show False by auto
        qed
      qed
      with k'(2) k(2) uniq show "m = w" by simp
    next
      assume "m = w"
      with k w show "\<exists>k<length WINNING_LINES. line_won (board s) (WINNING_LINES ! k) m \<and>
              (\<forall>j<k. \<forall>m'. \<not> line_won (board s) (WINNING_LINES ! j) m')"
        by auto
    qed
    have some: "\<exists>line\<in>set WINNING_LINES. \<exists>w. line_won (board s) line w"
      using lin w by auto
    have wd: "w \<noteq> ''draw''" using wm by auto
    show ?thesis
      unfolding first using some wd by (auto simp: ev)
  qed
qed

lemma spec_winning_lines_5:
  "spec_winning_lines 5 =
     [[0, 1, 2, 3, 4], [5, 6, 7, 8, 9], [10, 11, 12, 13, 14], [15, 16, 17, 18, 19],
      [20, 21, 22, 23, 24],
      [0, 5, 10, 15, 20], [1, 6, 11, 16, 21], [2, 7, 12, 17, 22], [3, 8, 13, 18, 23],
      [4, 9, 14, 19, 24],
      [0, 6, 12, 18, 24], [4, 8, 12, 16, 20]]"
  by code_simp

lemma WINNING_LINES_spec: "WINNING_LINES = spec_winning_lines 5"
  by (simp add: WINNING_LINES_eq spec_winning_lines_5)

text \<open>
  C1. The reference is the specification's own list of lines for \<open>N = 5\<close>: the five rows,
  then the five columns, then the two diagonals (\<open>spec_winning_lines 5\<close>), and a line is
  won by \<open>m\<close> when all its cells hold the non-empty mark \<open>m\<close>. On a board of 25 cells,
  each empty, \<open>X\<close> or \<open>O\<close>, \<^verbatim>\<open>evaluate_state\<close> returns the winner \<open>m\<close> exactly when
  \<open>m\<close> is the mark of the first won line in that order; it returns some winner exactly
  when some row, column or diagonal is won; it returns \<^verbatim>\<open>"draw"\<close> exactly when none is
  won and no cell is empty; and it returns \<^verbatim>\<open>None\<close> (in progress) exactly when none
  is won and some cell is empty.
\<close>

theorem evaluate_state_outcome:
  assumes "length (board s) = 25"
    and "set (board s) \<subseteq> {'' '', ''X'', ''O''}"
  shows "((evaluate_state s = Inr (Some m) \<and> m \<noteq> ''draw'') =
           (\<exists>k<length (spec_winning_lines 5).
              line_won (board s) (spec_winning_lines 5 ! k) m \<and>
              (\<forall>j<k. \<forall>m'. \<not> line_won (board s) (spec_winning_lines 5 ! j) m')))
       \<and> ((\<exists>w. evaluate_state s = Inr (Some w) \<and> w \<noteq> ''draw'') =
           (\<exists>line\<in>set (spec_winning_lines 5). \<exists>w. line_won (board s) line w))
       \<and> ((evaluate_state s = Inr (Some ''draw'')) =
           ((\<forall>line\<in>set (spec_winning_lines 5). \<forall>w. \<not> line_won (board s) line w) \<and>
            (\<forall>cell\<in>set (board s). cell \<noteq> '' '')))
       \<and> ((evaluate_state s = Inr None) =
           ((\<forall>line\<in>set (spec_winning_lines 5). \<forall>w. \<not> line_won (board s) line w) \<and>
            (\<exists>cell\<in>set (board s). cell = '' '')))"
proof -
  have len: "int (length (board s)) = TOTAL_CELLS"
    using assms(1) by (simp add: TOTAL_CELLS_eq)
  show ?thesis
    using evaluate_state_table [OF len assms(2), of m]
    unfolding WINNING_LINES_spec .
qed

theorem evaluate_state_outcome_witness:
  "length (board \<lparr>board =
      [''X'', ''O'', ''O'', ''O'', '' '', ''X'', ''O'', '' '', '' '', '' '', ''X'', '' '',
       '' '', '' '', '' '', ''X'', '' '', '' '', '' '', '' '', ''X'', '' '', '' '', '' '',
       '' ''], active = ''O''\<rparr>) = 25
   \<and> set (board \<lparr>board =
      [''X'', ''O'', ''O'', ''O'', '' '', ''X'', ''O'', '' '', '' '', '' '', ''X'', '' '',
       '' '', '' '', '' '', ''X'', '' '', '' '', '' '', '' '', ''X'', '' '', '' '', '' '',
       '' ''], active = ''O''\<rparr>) \<subseteq> {'' '', ''X'', ''O''}
   \<and> spec_winning_lines 5 ! 5 = [0, 5, 10, 15, 20]
   \<and> evaluate_state \<lparr>board =
      [''X'', ''O'', ''O'', ''O'', '' '', ''X'', ''O'', '' '', '' '', '' '', ''X'', '' '',
       '' '', '' '', '' '', ''X'', '' '', '' '', '' '', '' '', ''X'', '' '', '' '', '' '',
       '' ''], active = ''O''\<rparr> = Inr (Some ''X'')"
proof -
  let ?s = "\<lparr>board =
      [''X'', ''O'', ''O'', ''O'', '' '', ''X'', ''O'', '' '', '' '', '' '', ''X'', '' '',
       '' '', '' '', '' '', ''X'', '' '', '' '', '' '', '' '', ''X'', '' '', '' '', '' '',
       '' ''], active = ''O''\<rparr>"
  have h1: "length (board ?s) = 25" by simp
  have h2: "set (board ?s) \<subseteq> {'' '', ''X'', ''O''}" by simp
  have col: "spec_winning_lines 5 ! 5 = [0, 5, 10, 15, 20]"
    by (simp add: spec_winning_lines_5)
  have won: "line_won (board ?s) (spec_winning_lines 5 ! 5) ''X''"
    by (simp add: col line_won_def)
  have rows: "\<forall>j<5. \<forall>m'. \<not> line_won (board ?s) (spec_winning_lines 5 ! j) m'"
  proof (intro allI impI)
    fix j :: nat and m'
    assume "j < 5"
    then consider "j = 0" | "j = 1" | "j = 2" | "j = 3" | "j = 4" by linarith
    then show "\<not> line_won (board ?s) (spec_winning_lines 5 ! j) m'"
      by cases (auto simp: spec_winning_lines_5 line_won_def)
  qed
  have "5 < length (spec_winning_lines 5)" by (simp add: spec_winning_lines_5)
  with won rows
  have first: "\<exists>k<length (spec_winning_lines 5).
      line_won (board ?s) (spec_winning_lines 5 ! k) ''X'' \<and>
      (\<forall>j<k. \<forall>m'. \<not> line_won (board ?s) (spec_winning_lines 5 ! j) m')"
    by blast
  from evaluate_state_outcome [OF h1 h2, of "''X''"] first
  have "evaluate_state ?s = Inr (Some ''X'')" by blast
  with h1 h2 col show ?thesis by blast
qed

subsection \<open>Applying a move\<close>

lemma filled_update:
  "i < length xs \<Longrightarrow> xs ! i = e \<Longrightarrow> v \<noteq> e \<Longrightarrow>
   length (filter (\<lambda>c. c \<noteq> e) (xs[i := v])) = Suc (length (filter (\<lambda>c. c \<noteq> e) xs))"
proof (induction xs arbitrary: i)
  case Nil
  then show ?case by simp
next
  case (Cons x xs)
  then show ?case by (cases i) auto
qed

text \<open>
  C3. On a state of 25 cells whose active mark is \<open>X\<close> or \<open>O\<close>, for a validated slot
  (in \<open>[0, 25)\<close>, the cell there empty), \<^verbatim>\<open>make_move\<close> returns a state in which the cell
  at the slot holds the mark that was active, the active mark is the other mark, and
  one more cell is non-empty than before.
\<close>

theorem make_move_validated:
  assumes "int (length (board s)) = TOTAL_CELLS"
    and "0 \<le> slot" and "slot < TOTAL_CELLS"
    and "board s ! nat slot = '' ''"
    and "active s = ''X'' \<or> active s = ''O''"
  shows "\<exists>s'. make_move s slot = Inr s'
    \<and> board s' ! nat slot = active s
    \<and> active s' = (if active s = ''X'' then ''O'' else ''X'')
    \<and> active s' \<noteq> active s
    \<and> length (board s') = length (board s)
    \<and> length (filter (\<lambda>cell. cell \<noteq> '' '') (board s'))
        = Suc (length (filter (\<lambda>cell. cell \<noteq> '' '') (board s)))"
proof -
  have len: "slot < int (length (board s))" "nat slot < length (board s)"
    using assms(1,2,3) by auto
  have mm: "make_move s slot = Inr \<lparr>board = (board s)[nat slot := active s],
      active = (if active s = ''X'' then ''O'' else ''X'')\<rparr>"
    by (simp add: make_move_def setitem_inside [OF assms(2) len(1)])
  have mark: "active s \<noteq> '' ''" using assms(5) by auto
  have cnt: "length (filter (\<lambda>cell. cell \<noteq> '' '') ((board s)[nat slot := active s]))
        = Suc (length (filter (\<lambda>cell. cell \<noteq> '' '') (board s)))"
    by (rule filled_update [OF len(2) assms(4) mark])
  show ?thesis
    using assms(5) len(2) cnt by (auto simp: mm)
qed

theorem make_move_validated_witness:
  "int (length (board (new_game None))) = TOTAL_CELLS
   \<and> (0::int) \<le> 12 \<and> 12 < TOTAL_CELLS
   \<and> board (new_game None) ! nat 12 = '' ''
   \<and> (\<exists>s'. make_move (new_game None) 12 = Inr s' \<and> board s' ! 12 = ''X'' \<and> active s' = ''O''
        \<and> length (filter (\<lambda>cell. cell \<noteq> '' '') (board s')) = 1)"
proof -
  have h1: "int (length (board (new_game None))) = TOTAL_CELLS"
    by (simp add: new_game_def TOTAL_CELLS_eq)
  have h2: "(0::int) \<le> 12" by simp
  have h3: "12 < TOTAL_CELLS" by (simp add: TOTAL_CELLS_eq)
  have h4: "board (new_game None) ! nat 12 = '' ''"
    by (simp add: new_game_def TOTAL_CELLS_eq)
  have h5: "active (new_game None) = ''X'' \<or> active (new_game None) = ''O''"
    by (simp add: new_game_def)
  have e: "length (filter (\<lambda>cell. cell \<noteq> '' '') (board (new_game None))) = 0"
    by (simp add: new_game_def)
  from make_move_validated [OF h1 h2 h3 h4 h5]
  have "\<exists>s'. make_move (new_game None) 12 = Inr s' \<and> board s' ! 12 = ''X'' \<and> active s' = ''O''
        \<and> length (filter (\<lambda>cell. cell \<noteq> '' '') (board s')) = 1"
    unfolding e by (simp add: new_game_def) blast
  with h1 h2 h3 h4 show ?thesis by blast
qed

text \<open>
  C10. \<^verbatim>\<open>make_move\<close> checks nothing: on a board of 25 cells, every slot from \<open>-25\<close> to
  \<open>24\<close> is written, at position \<open>25 + slot\<close> when the slot is negative, whatever the cell
  held and whatever the outcome of the board; the call raises, and then
  \<^verbatim>\<open>IndexError\<close>, exactly when the slot is at least 25 or below \<open>-25\<close>.
\<close>

theorem make_move_unvalidated:
  assumes "int (length (board s)) = TOTAL_CELLS"
  shows "(- TOTAL_CELLS \<le> slot \<and> slot < TOTAL_CELLS \<longrightarrow>
          make_move s slot =
            Inr \<lparr>board = (board s)[nat (if slot < 0 then TOTAL_CELLS + slot else slot) := active s],
                 active = (if active s = ''X'' then ''O'' else ''X'')\<rparr>
          \<and> (board s)[nat (if slot < 0 then TOTAL_CELLS + slot else slot) := active s]
              ! nat (if slot < 0 then TOTAL_CELLS + slot else slot) = active s)
       \<and> ((make_move s slot = Inl IndexError) = (TOTAL_CELLS \<le> slot \<or> slot < - TOTAL_CELLS))
       \<and> (\<forall>e. make_move s slot = Inl e \<longrightarrow> e = IndexError)"
  using assms
  by (auto simp: make_move_def setitem_cases)

theorem make_move_unvalidated_witness:
  "int (length (board \<lparr>board =
      [''X'', ''X'', ''X'', ''X'', ''X'', ''O'', ''O'', ''O'', ''O'', '' '', '' '', '' '',
       '' '', '' '', '' '', '' '', '' '', '' '', '' '', '' '', '' '', '' '', '' '', '' '',
       '' ''], active = ''O''\<rparr>)) = TOTAL_CELLS
   \<and> make_move \<lparr>board =
      [''X'', ''X'', ''X'', ''X'', ''X'', ''O'', ''O'', ''O'', ''O'', '' '', '' '', '' '',
       '' '', '' '', '' '', '' '', '' '', '' '', '' '', '' '', '' '', '' '', '' '', '' '',
       '' ''], active = ''O''\<rparr> (- 25) =
     Inr \<lparr>board =
      [''O'', ''X'', ''X'', ''X'', ''X'', ''O'', ''O'', ''O'', ''O'', '' '', '' '', '' '',
       '' '', '' '', '' '', '' '', '' '', '' '', '' '', '' '', '' '', '' '', '' '', '' '',
       '' ''], active = ''X''\<rparr>
   \<and> make_move \<lparr>board =
      [''X'', ''X'', ''X'', ''X'', ''X'', ''O'', ''O'', ''O'', ''O'', '' '', '' '', '' '',
       '' '', '' '', '' '', '' '', '' '', '' '', '' '', '' '', '' '', '' '', '' '', '' '',
       '' ''], active = ''O''\<rparr> 25 = Inl IndexError"
proof -
  let ?s = "\<lparr>board =
      [''X'', ''X'', ''X'', ''X'', ''X'', ''O'', ''O'', ''O'', ''O'', '' '', '' '', '' '',
       '' '', '' '', '' '', '' '', '' '', '' '', '' '', '' '', '' '', '' '', '' '', '' '',
       '' ''], active = ''O''\<rparr>"
  have h: "int (length (board ?s)) = TOTAL_CELLS" by (simp add: TOTAL_CELLS_eq)
  from make_move_unvalidated [OF h, of "- 25"]
  have a: "make_move ?s (- 25) = Inr \<lparr>board =
      [''O'', ''X'', ''X'', ''X'', ''X'', ''O'', ''O'', ''O'', ''O'', '' '', '' '', '' '',
       '' '', '' '', '' '', '' '', '' '', '' '', '' '', '' '', '' '', '' '', '' '', '' '',
       '' ''], active = ''X''\<rparr>"
    by (simp add: TOTAL_CELLS_eq)
  from make_move_unvalidated [OF h, of 25]
  have b: "make_move ?s 25 = Inl IndexError"
    by (simp add: TOTAL_CELLS_eq)
  from h a b show ?thesis by blast
qed

lemma make_move_active:
  "make_move t slot = Inr t' \<Longrightarrow> active t' = (if active t = ''X'' then ''O'' else ''X'')"
  by (auto simp: make_move_def split: sum.splits)

lemma reachable_active: "reachable s \<Longrightarrow> active s = ''X'' \<or> active s = ''O''"
proof (induction rule: reachable.induct)
  case (start p)
  then show ?case by (auto simp: new_game_def)
next
  case (step s slot s')
  from make_move_active [OF step.hyps(2)] show ?case by auto
qed

text \<open>
  C9. Every state reachable from a fresh game started by \<open>X\<close> or \<open>O\<close> has \<open>X\<close> or \<open>O\<close> as
  its active mark; and for any input state at all, the state \<^verbatim>\<open>make_move\<close> returns has
  active mark \<open>O\<close> when the input's was \<open>X\<close>, and \<open>X\<close> when it was anything else.
\<close>

theorem active_mark_invariant:
  "(reachable s \<longrightarrow> active s = ''X'' \<or> active s = ''O'')
   \<and> (make_move t slot = Inr t' \<longrightarrow>
        (active t = ''X'' \<longrightarrow> active t' = ''O'') \<and> (active t \<noteq> ''X'' \<longrightarrow> active t' = ''X''))"
  using reachable_active [of s] make_move_active [of t slot t'] by auto

theorem active_mark_invariant_witness:
  "reachable \<lparr>board = (replicate 25 '' '')[12 := ''X''], active = ''O''\<rparr>
   \<and> make_move (new_game (Some ''X'')) 12 =
       Inr \<lparr>board = (replicate 25 '' '')[12 := ''X''], active = ''O''\<rparr>
   \<and> (active \<lparr>board = (replicate 25 '' '')[12 := ''X''], active = ''O''\<rparr> = ''X''
      \<or> active \<lparr>board = (replicate 25 '' '')[12 := ''X''], active = ''O''\<rparr> = ''O'')
   \<and> active (new_game (Some ''X'')) = ''X''"
proof -
  let ?s1 = "\<lparr>board = (replicate 25 '' '')[12 := ''X''], active = ''O''\<rparr>"
  have mm: "make_move (new_game (Some ''X'')) 12 = Inr ?s1"
    by (simp add: make_move_def new_game_def TOTAL_CELLS_eq setitem_inside)
  have r0: "reachable (new_game (Some ''X''))"
    by (rule reachable.start) simp
  have r1: "reachable ?s1"
    by (rule reachable.step [OF r0 mm])
  from active_mark_invariant [of ?s1 "new_game (Some ''X'')" 12 ?s1] r1 mm
  have "(active ?s1 = ''X'' \<or> active ?s1 = ''O'')" by blast
  moreover have "active (new_game (Some ''X'')) = ''X''" by (simp add: new_game_def)
  ultimately show ?thesis using r1 mm by blast
qed

subsection \<open>A fresh game\<close>

lemma evaluate_fresh: "evaluate_state (new_game starting_player) = Inr None"
  by (simp add: new_game_def TOTAL_CELLS_eq evaluate_state_def check_winner_def
      WINNING_LINES_eq getitem_def subscript_def truthy_def is_draw_def list_all_iff)

text \<open>
  C7. \<^verbatim>\<open>new_game\<close> returns a board of 25 empty cells; the active mark is the starting
  mark given, and \<open>X\<close> when none is given; \<^verbatim>\<open>evaluate_state\<close> on the fresh state
  returns \<^verbatim>\<open>None\<close> (in progress).
\<close>

theorem new_game_fresh:
  "board (new_game starting_player) = replicate 25 '' ''
   \<and> active (new_game (Some mark)) = mark
   \<and> active (new_game None) = ''X''
   \<and> evaluate_state (new_game starting_player) = Inr None"
  by (simp add: evaluate_fresh) (simp add: new_game_def TOTAL_CELLS_eq)

subsection \<open>Reading the session\<close>

lemma get_state_malformed:
  assumes "session_board sess = None
     \<or> (\<exists>cells. session_board sess = Some cells \<and> int (length cells) \<noteq> TOTAL_CELLS)"
  shows "get_state sess = (set_state (new_game None) sess, new_game None)"
  using assms by (auto simp: get_state_def Let_def)

lemma get_state_cases:
  "get_state sess = (set_state (new_game None) sess, new_game None)
   \<or> (\<exists>cells. session_board sess = Some cells \<and> int (length cells) = TOTAL_CELLS \<and>
        get_state sess =
          (sess, \<lparr>board = cells,
                  active = (case session_active sess of None \<Rightarrow> ''X'' | Some a \<Rightarrow> a)\<rparr>))"
  by (cases "session_board sess") (auto simp: get_state_def Let_def TOTAL_CELLS_eq)

text \<open>
  C8. When the session holds no board, or a board whose length is not 25 (the empty list
  among them), \<^verbatim>\<open>_get_state\<close> returns the fresh state (25 empty cells, \<open>X\<close> active) and
  stores it in the session, so that reading the session again returns it.
\<close>

theorem get_state_fresh:
  assumes "session_board sess = None
     \<or> (\<exists>cells. session_board sess = Some cells \<and> int (length cells) \<noteq> TOTAL_CELLS)"
  shows "snd (get_state sess) = \<lparr>board = replicate 25 '' '', active = ''X''\<rparr>
    \<and> snd (get_state sess) = new_game None
    \<and> fst (get_state sess) =
        sess\<lparr>session_board := Some (replicate 25 '' ''), session_active := Some ''X''\<rparr>
    \<and> get_state (fst (get_state sess)) = (fst (get_state sess), new_game None)"
proof -
  have g: "get_state sess = (set_state (new_game None) sess, new_game None)"
    by (rule get_state_malformed [OF assms])
  have n: "new_game None = \<lparr>board = replicate 25 '' '', active = ''X''\<rparr>"
    by (simp add: new_game_def TOTAL_CELLS_eq)
  have again: "get_state (set_state (new_game None) sess) =
      (set_state (new_game None) sess, new_game None)"
    by (simp add: get_state_def set_state_def n TOTAL_CELLS_eq)
  show ?thesis
    by (simp add: g again) (simp add: n set_state_def)
qed

theorem get_state_fresh_witness:
  "(session_board \<lparr>session_board = Some [''X'', ''O'', '' ''], session_active = Some ''O'',
       flashes = []\<rparr> = None
     \<or> (\<exists>cells. session_board \<lparr>session_board = Some [''X'', ''O'', '' ''],
            session_active = Some ''O'', flashes = []\<rparr> = Some cells
          \<and> int (length cells) \<noteq> TOTAL_CELLS))
   \<and> get_state \<lparr>session_board = Some [''X'', ''O'', '' ''], session_active = Some ''O'',
       flashes = []\<rparr> =
      (\<lparr>session_board = Some (replicate 25 '' ''), session_active = Some ''X'', flashes = []\<rparr>,
       \<lparr>board = replicate 25 '' '', active = ''X''\<rparr>)"
proof -
  let ?sess = "\<lparr>session_board = Some [''X'', ''O'', '' ''], session_active = Some ''O'',
       flashes = []\<rparr>"
  have h: "session_board ?sess = None
     \<or> (\<exists>cells. session_board ?sess = Some cells \<and> int (length cells) \<noteq> TOTAL_CELLS)"
    by (simp add: TOTAL_CELLS_eq)
  from get_state_fresh [OF h]
  have "get_state ?sess =
      (\<lparr>session_board = Some (replicate 25 '' ''), session_active = Some ''X'', flashes = []\<rparr>,
       \<lparr>board = replicate 25 '' '', active = ''X''\<rparr>)"
    by (simp add: prod_eq_iff)
  with h show ?thesis by blast
qed

subsection \<open>The web handler on a finished game\<close>


lemma get_state_flash:
  assumes "get_state sess = (sess1, state)"
  shows "get_state (flash message sess1) = (flash message sess1, state)"
proof -
  from get_state_cases [of sess] show ?thesis
  proof
    assume "get_state sess = (set_state (new_game None) sess, new_game None)"
    with assms have "sess1 = set_state (new_game None) sess" "state = new_game None" by auto
    then show ?thesis
      by (simp add: get_state_def set_state_def flash_def new_game_def TOTAL_CELLS_eq)
  next
    assume "\<exists>cells. session_board sess = Some cells \<and> int (length cells) = TOTAL_CELLS \<and>
        get_state sess =
          (sess, \<lparr>board = cells,
                  active = (case session_active sess of None \<Rightarrow> ''X'' | Some a \<Rightarrow> a)\<rparr>)"
    then obtain cells where c: "session_board sess = Some cells" "int (length cells) = TOTAL_CELLS"
      "get_state sess = (sess, \<lparr>board = cells,
                  active = (case session_active sess of None \<Rightarrow> ''X'' | Some a \<Rightarrow> a)\<rparr>)"
      by blast
    with assms have "sess1 = sess" "state = \<lparr>board = cells,
                  active = (case session_active sess of None \<Rightarrow> ''X'' | Some a \<Rightarrow> a)\<rparr>" by auto
    then show ?thesis
      using c(1,2) by (auto simp: get_state_def flash_def Let_def TOTAL_CELLS_eq)
  qed
qed


lemma move_finished:
  assumes "get_state sess = (sess1, state)" and "evaluate_state state = Inr outcome"
    and "truthy outcome"
  shows "move to_int sess form_position =
    Inr (flash ''The game is finished. Start a new game to continue.'' sess1)"
  using assms by (simp add: move_def)






text \<open>
  \<^verbatim>\<open>make_move\<close> itself does not look at the outcome. After \<open>X\<close> has filled row 0 the
  state evaluates to the winner \<open>X\<close>, and \<^verbatim>\<open>make_move\<close> on it with slot 9 still
  returns a state, with \<open>O\<close> written into cell 9.
\<close>

theorem make_move_finished_counterexample:
  "evaluate_state \<lparr>board =
      [''X'', ''X'', ''X'', ''X'', ''X'', ''O'', ''O'', ''O'', ''O'', '' '', '' '', '' '',
       '' '', '' '', '' '', '' '', '' '', '' '', '' '', '' '', '' '', '' '', '' '', '' '',
       '' ''], active = ''O''\<rparr> = Inr (Some ''X'')
   \<and> make_move \<lparr>board =
      [''X'', ''X'', ''X'', ''X'', ''X'', ''O'', ''O'', ''O'', ''O'', '' '', '' '', '' '',
       '' '', '' '', '' '', '' '', '' '', '' '', '' '', '' '', '' '', '' '', '' '', '' '',
       '' ''], active = ''O''\<rparr> 9 =
     Inr \<lparr>board =
      [''X'', ''X'', ''X'', ''X'', ''X'', ''O'', ''O'', ''O'', ''O'', ''O'', '' '', '' '',
       '' '', '' '', '' '', '' '', '' '', '' '', '' '', '' '', '' '', '' '', '' '', '' '',
       '' ''], active = ''X''\<rparr>"
  by (simp add: evaluate_state_def check_winner_def WINNING_LINES_eq getitem_def subscript_def
      truthy_def make_move_def setitem_def)

text \<open>
  C4 (as amended). The check for a finished game is made by the caller: when the state
  stored in the session evaluates to \<open>X\<close>, \<open>O\<close> or \<^verbatim>\<open>"draw"\<close>, the web handler
  \<^verbatim>\<open>move\<close> answers every request, whatever position it carries, with the message that
  the game is finished, and the board and active mark stored in the session stay as
  they were.
\<close>

theorem move_on_finished_game:
  assumes "evaluate_state (snd (get_state sess)) = Inr (Some outcome)"
    and "outcome = ''X'' \<or> outcome = ''O'' \<or> outcome = ''draw''"
  shows "move to_int sess form_position =
      Inr (flash ''The game is finished. Start a new game to continue.'' sess)
    \<and> session_board (flash ''The game is finished. Start a new game to continue.'' sess)
        = session_board sess
    \<and> session_active (flash ''The game is finished. Start a new game to continue.'' sess)
        = session_active sess
    \<and> snd (get_state (flash ''The game is finished. Start a new game to continue.'' sess))
        = snd (get_state sess)"
proof -
  obtain sess1 state where g: "get_state sess = (sess1, state)" by (cases "get_state sess")
  with assms(1) have ev: "evaluate_state state = Inr (Some outcome)" by simp
  have t: "truthy (Some outcome)" using assms(2) by (auto simp: truthy_def)
  have same: "sess1 = sess"
  proof -
    from get_state_cases [of sess] show ?thesis
    proof
      assume "get_state sess = (set_state (new_game None) sess, new_game None)"
      with g have "state = new_game None" by simp
      with ev evaluate_fresh [of None] show ?thesis by simp
    next
      assume "\<exists>cells. session_board sess = Some cells \<and> int (length cells) = TOTAL_CELLS \<and>
        get_state sess =
          (sess, \<lparr>board = cells,
                  active = (case session_active sess of None \<Rightarrow> ''X'' | Some a \<Rightarrow> a)\<rparr>)"
      with g show ?thesis by auto
    qed
  qed
  have m: "move to_int sess form_position =
      Inr (flash ''The game is finished. Start a new game to continue.'' sess)"
    using move_finished [OF g ev t] same by simp
  have again: "snd (get_state (flash ''The game is finished. Start a new game to continue.'' sess))
        = snd (get_state sess)"
    using get_state_flash [OF g] same g by simp
  show ?thesis
    using m again by (simp add: flash_def)
qed

theorem move_on_finished_game_witness:
  "evaluate_state (snd (get_state \<lparr>session_board = Some
      [''X'', ''X'', ''X'', ''X'', ''X'', ''O'', ''O'', ''O'', ''O'', '' '', '' '', '' '',
       '' '', '' '', '' '', '' '', '' '', '' '', '' '', '' '', '' '', '' '', '' '', '' '',
       '' ''], session_active = Some ''O'', flashes = []\<rparr>)) = Inr (Some ''X'')
   \<and> move plain_int \<lparr>session_board = Some
      [''X'', ''X'', ''X'', ''X'', ''X'', ''O'', ''O'', ''O'', ''O'', '' '', '' '', '' '',
       '' '', '' '', '' '', '' '', '' '', '' '', '' '', '' '', '' '', '' '', '' '', '' '',
       '' ''], session_active = Some ''O'', flashes = []\<rparr> (Some ''9'') =
     Inr \<lparr>session_board = Some
      [''X'', ''X'', ''X'', ''X'', ''X'', ''O'', ''O'', ''O'', ''O'', '' '', '' '', '' '',
       '' '', '' '', '' '', '' '', '' '', '' '', '' '', '' '', '' '', '' '', '' '', '' '',
       '' ''], session_active = Some ''O'',
       flashes = [''The game is finished. Start a new game to continue.'']\<rparr>"
proof -
  let ?sess = "\<lparr>session_board = Some
      [''X'', ''X'', ''X'', ''X'', ''X'', ''O'', ''O'', ''O'', ''O'', '' '', '' '', '' '',
       '' '', '' '', '' '', '' '', '' '', '' '', '' '', '' '', '' '', '' '', '' '', '' '',
       '' ''], session_active = Some ''O'', flashes = []\<rparr>"
  have h1: "evaluate_state (snd (get_state ?sess)) = Inr (Some ''X'')"
    by (simp add: get_state_def TOTAL_CELLS_eq evaluate_state_def check_winner_def
        WINNING_LINES_eq getitem_def subscript_def truthy_def)
  have h2: "''X'' = ''X'' \<or> ''X'' = ''O'' \<or> ''X'' = ''draw''" by simp
  from move_on_finished_game [OF h1 h2, of plain_int "Some ''9''"]
  have "move plain_int ?sess (Some ''9'') =
      Inr (flash ''The game is finished. Start a new game to continue.'' ?sess)" by blast
  then have "move plain_int ?sess (Some ''9'') = Inr \<lparr>session_board = Some
      [''X'', ''X'', ''X'', ''X'', ''X'', ''O'', ''O'', ''O'', ''O'', '' '', '' '', '' '',
       '' '', '' '', '' '', '' '', '' '', '' '', '' '', '' '', '' '', '' '', '' '', '' '',
       '' ''], session_active = Some ''O'',
       flashes = [''The game is finished. Start a new game to continue.'']\<rparr>"
    by (simp add: flash_def)
  with h1 show ?thesis by blast
qed

subsection \<open>Validation of a move in both front ends\<close>










subsection \<open>The input state is not written\<close>

lemma deref_old: "a < length h \<Longrightarrow> deref (h @ xs) a = deref h a"
  by (simp add: deref_def nth_append)

lemma state_at_Some:
  assumes "state_at h p = Some s"
  shows "\<exists>b. deref h p = Some (StateObj b (active s))
    \<and> items (deref h b) = Some (board s) \<and> p < length h \<and> b < length h"
proof -
  from assms obtain b act where d: "deref h p = Some (StateObj b act)"
    by (auto simp: state_at_def split: option.splits obj.splits)
  with assms obtain cells where i: "items (deref h b) = Some cells"
    by (auto simp: state_at_def split: option.splits)
  from assms d i have s: "s = \<lparr>board = cells, active = act\<rparr>" by (simp add: state_at_def)
  from d have p: "p < length h" by (auto simp: deref_def split: if_splits)
  from i have b: "b < length h"
    by (cases "b < length h") (auto simp: deref_def)
  from d i s p b show ?thesis by auto
qed

lemma state_at_old:
  assumes "state_at h p = Some s"
  shows "state_at (h @ xs) p = Some s"
proof -
  from state_at_Some [OF assms] obtain b where b: "deref h p = Some (StateObj b (active s))"
    "items (deref h b) = Some (board s)" "p < length h" "b < length h" by blast
  then show ?thesis
    by (simp add: state_at_def deref_old)
qed

lemma make_move_store_written:
  assumes "state_at h p = Some s" and "setitem (board s) slot (active s) = Inr cells'"
  shows "make_move_store h p slot =
    (h @ [ListObj cells', TupleObj cells',
          StateObj (Suc (length h)) (if active s = ''X'' then ''O'' else ''X'')],
     Inr (Suc (Suc (length h))))"
proof -
  from state_at_Some [OF assms(1)] obtain b where b: "deref h p = Some (StateObj b (active s))"
    "items (deref h b) = Some (board s)" by blast
  then show ?thesis
    using assms(2) by (simp add: make_move_store_def alloc_def Let_def)
qed

lemma make_move_store_old: "take (length h) (fst (make_move_store h p slot)) = h"
  by (auto simp: make_move_store_def alloc_def Let_def
      split: option.splits obj.splits sum.splits)

text \<open>
  C6. Over the object store, \<^verbatim>\<open>make_move\<close> on a state of 25 cells with a slot in
  \<open>[0, 25)\<close> returns the address of a new state object; every object that was in the
  store before the call is unchanged, so the input address still denotes the input
  state (same board, same active mark); the new state is the one the value-level
  \<^verbatim>\<open>make_move\<close> computes, and its board agrees with the input board at every cell
  other than the slot. Whatever the slot, also when the call raises, no object that was
  in the store before is changed.
\<close>

theorem make_move_store_frame:
  assumes "state_at h p = Some s"
    and "int (length (board s)) = TOTAL_CELLS"
    and "0 \<le> slot" and "slot < TOTAL_CELLS"
  shows "(\<exists>h' r s'. make_move_store h p slot = (h', Inr r)
      \<and> take (length h) h' = h
      \<and> state_at h' p = Some s
      \<and> state_at h' r = Some s'
      \<and> make_move s slot = Inr s'
      \<and> length (board s') = length (board s)
      \<and> (\<forall>i<length (board s). i \<noteq> nat slot \<longrightarrow> board s' ! i = board s ! i))
    \<and> take (length h) (fst (make_move_store h p any_slot)) = h"
proof -
  let ?cells' = "(board s)[nat slot := active s]"
  let ?next = "if active s = ''X'' then ''O'' else ''X''"
  let ?s' = "\<lparr>board = ?cells', active = ?next\<rparr>"
  let ?h' = "h @ [ListObj ?cells', TupleObj ?cells', StateObj (Suc (length h)) ?next]"
  have "slot < int (length (board s))" using assms(2,4) by simp
  from setitem_inside [OF assms(3) this]
  have si: "setitem (board s) slot (active s) = Inr ?cells'" .
  have run: "make_move_store h p slot = (?h', Inr (Suc (Suc (length h))))"
    by (rule make_move_store_written [OF assms(1) si])
  have old: "take (length h) ?h' = h" by simp
  have kept: "state_at ?h' p = Some s" by (rule state_at_old [OF assms(1)])
  have new: "state_at ?h' (Suc (Suc (length h))) = Some ?s'"
    by (simp add: state_at_def deref_def nth_append)
  have pure: "make_move s slot = Inr ?s'" by (simp add: make_move_def si)
  have frame: "\<forall>i<length (board s). i \<noteq> nat slot \<longrightarrow> board ?s' ! i = board s ! i"
    by simp
  have len: "length (board ?s') = length (board s)" by simp
  from run old kept new pure len frame
  have "\<exists>h' r s'. make_move_store h p slot = (h', Inr r)
      \<and> take (length h) h' = h
      \<and> state_at h' p = Some s
      \<and> state_at h' r = Some s'
      \<and> make_move s slot = Inr s'
      \<and> length (board s') = length (board s)
      \<and> (\<forall>i<length (board s). i \<noteq> nat slot \<longrightarrow> board s' ! i = board s ! i)"
    by blast
  with make_move_store_old show ?thesis by blast
qed

theorem make_move_store_frame_witness:
  "state_at [TupleObj (replicate 25 '' ''), StateObj 0 ''X''] 1
      = Some \<lparr>board = replicate 25 '' '', active = ''X''\<rparr>
   \<and> int (length (board \<lparr>board = replicate 25 '' '', active = ''X''\<rparr>)) = TOTAL_CELLS
   \<and> (0::int) \<le> 3 \<and> 3 < TOTAL_CELLS
   \<and> take 2 (fst (make_move_store [TupleObj (replicate 25 '' ''), StateObj 0 ''X''] 1 3))
      = [TupleObj (replicate 25 '' ''), StateObj 0 ''X'']
   \<and> make_move_store [TupleObj (replicate 25 '' ''), StateObj 0 ''X''] 1 3 =
      ([TupleObj (replicate 25 '' ''), StateObj 0 ''X'',
        ListObj ((replicate 25 '' '')[3 := ''X'']),
        TupleObj ((replicate 25 '' '')[3 := ''X'']), StateObj 3 ''O''], Inr 4)"
proof -
  let ?h = "[TupleObj (replicate 25 '' ''), StateObj 0 ''X'']"
  let ?s = "\<lparr>board = replicate 25 '' '', active = ''X''\<rparr>"
  have h1: "state_at ?h 1 = Some ?s" by (simp add: state_at_def deref_def)
  have h2: "int (length (board ?s)) = TOTAL_CELLS" by (simp add: TOTAL_CELLS_eq)
  have h3: "(0::int) \<le> 3" by simp
  have h4: "3 < TOTAL_CELLS" by (simp add: TOTAL_CELLS_eq)
  from make_move_store_frame [OF h1 h2 h3 h4]
  have "take (length ?h) (fst (make_move_store ?h 1 3)) = ?h" by blast
  then have old: "take 2 (fst (make_move_store ?h 1 3)) = ?h" by (simp add: numeral_2_eq_2)
  have run: "make_move_store ?h 1 3 =
      ([TupleObj (replicate 25 '' ''), StateObj 0 ''X'',
        ListObj ((replicate 25 '' '')[3 := ''X'']),
        TupleObj ((replicate 25 '' '')[3 := ''X'']), StateObj 3 ''O''], Inr 4)"
    by (simp add: make_move_store_def deref_def alloc_def setitem_def subscript_def)
  from h1 h2 h3 h4 old run show ?thesis by blast
qed

end
